theory Spec2Isabelle
  imports Main "HOL-Library.Sublist"
begin

section \<open>Command-line handling of \<open>PowerEditor/src/winmain.cpp\<close>\<close>

text \<open>
  The functions of the anonymous namespace of \<open>winmain.cpp\<close> that cut the raw command
  line into arguments and pull named values out of the argument vector.

  Conventions of the embedding.
  \<^item> A \<open>TCHAR\<close> is modelled by \<^typ>\<open>char\<close>; the code only compares characters with
    the double quote, the tab, the blank, \<open>=\<close>, \<open>-\<close> and the zero terminator, so the
    width of the character type plays no role.
  \<^item> A \<open>std::wstring\<close> and a zero-terminated \<open>TCHAR\<close> string are a \<^typ>\<open>string\<close>;
    memory holding zero-terminated strings is a \<^typ>\<open>string\<close> read with \<open>cstr\<close>.
  \<^item> \<open>lstrcmp(a, b) == 0\<close> is equality of the two strings.
  \<^item> \<open>int zArg\<close> is an \<^typ>\<open>int\<close>: it is incremented at most once per character of the
    command line, far below \<open>2^31\<close>.
  \<^item> A reference parameter that the code mutates is returned as part of the result.
  \<^item> A command line is a zero-terminated string, so it holds no zero character itself:
    the theorems about a whole line \<open>raw\<close> assume \<open>NUL \<notin> set raw\<close>.
\<close>

subsection \<open>Characters and zero-terminated strings\<close>

type_synonym ParamVector = "string list"

definition NUL :: char where
  "NUL = CHR 0x00"

definition dquote :: char where
  "dquote = CHR 0x22"

definition tab :: char where
  "tab = CHR 0x09"

definition blank :: char where
  "blank = CHR 0x20"

text \<open>\<open>lstrlen\<close>: the number of characters before the first zero.\<close>

definition lstrlen :: "string \<Rightarrow> nat" where
  "lstrlen str = length (takeWhile (\<lambda>c. c \<noteq> NUL) str)"

text \<open>The zero-terminated string that starts at offset \<open>p\<close> of the memory \<open>mem\<close>.\<close>

definition cstr :: "string \<Rightarrow> nat \<Rightarrow> string" where
  "cstr mem p = takeWhile (\<lambda>c. c \<noteq> NUL) (drop p mem)"

subsection \<open>\<open>parseCommandLine\<close>\<close>

text \<open>
  The local variables of \<open>parseCommandLine\<close>: the private copy \<open>cmdLine\<close> of the command
  line (the code writes zero terminators into it), the vector \<open>args\<close> of pointers into that
  copy (offsets here), the three context flags, the counter \<open>zArg\<close> and the flag that ends
  the loop.
\<close>

record scanner =
  cmdLine :: string
  args :: "nat list"
  isBetweenFileNameQuotes :: bool
  isStringInArg :: bool
  isInWhiteSpace :: bool
  zArg :: int
  shouldBeTerminated :: bool

text \<open>The body of the \<open>for\<close> loop: the \<open>switch\<close> on \<open>cmdLinePtr[i]\<close>.\<close>

definition scanChar :: "nat \<Rightarrow> scanner \<Rightarrow> scanner" where
  "scanChar i s =
    (if cmdLine s ! i = dquote then
       (if \<not> isStringInArg s \<and> \<not> isBetweenFileNameQuotes s \<and> i > 0
            \<and> cmdLine s ! (i - 1) = CHR ''='' then
          s\<lparr>isStringInArg := True, isInWhiteSpace := False\<rparr>
        else if isStringInArg s then
          s\<lparr>isStringInArg := False, isInWhiteSpace := False\<rparr>
        else if \<not> isBetweenFileNameQuotes s then
          s\<lparr>args := args s @ [i + 1],
            isBetweenFileNameQuotes := True,
            cmdLine := (cmdLine s)[i := NUL],
            zArg := (if zArg s = 1 then zArg s + 1 else zArg s),
            isInWhiteSpace := False\<rparr>
        else
          s\<lparr>isBetweenFileNameQuotes := False,
            cmdLine := (cmdLine s)[i := NUL],
            isInWhiteSpace := False\<rparr>)
     else if cmdLine s ! i = tab \<or> cmdLine s ! i = blank then
       (if \<not> isBetweenFileNameQuotes s \<and> \<not> isStringInArg s then
          s\<lparr>isInWhiteSpace := True,
            cmdLine := (cmdLine s)[i := NUL],
            zArg := (if args s \<noteq> [] \<and> cstr ((cmdLine s)[i := NUL]) (last (args s)) = ''-z''
                     then zArg s + 1 else zArg s)\<rparr>
        else
          s\<lparr>isInWhiteSpace := True\<rparr>)
     else
       (if \<not> isBetweenFileNameQuotes s \<and> \<not> isStringInArg s \<and> isInWhiteSpace s then
          s\<lparr>args := args s @ [i],
            shouldBeTerminated := (if zArg s = 2 then True else shouldBeTerminated s),
            isInWhiteSpace := False\<rparr>
        else s))"

text \<open>\<open>for (size_t i = 0; i < commandLength && !shouldBeTerminated; ++i)\<close>\<close>

function scanLoop :: "nat \<Rightarrow> nat \<Rightarrow> scanner \<Rightarrow> scanner" where
  "scanLoop i commandLength s =
    (if i < commandLength \<and> \<not> shouldBeTerminated s
     then scanLoop (i + 1) commandLength (scanChar i s)
     else s)"
  by pat_completeness auto
termination
  by (relation "measure (\<lambda>(i, commandLength, s). commandLength - i)") auto

declare scanLoop.simps [simp del]

text \<open>
  The state in which the loop is left, for a command line that is not the null pointer:
  \<open>lstrcpy\<close> copies the characters before the first zero and the terminator.
\<close>

definition scanCommandLine :: "string \<Rightarrow> scanner" where
  "scanCommandLine commandLine =
    scanLoop 0 (lstrlen commandLine)
      \<lparr>cmdLine = takeWhile (\<lambda>c. c \<noteq> NUL) commandLine @ [NUL],
       args = [],
       isBetweenFileNameQuotes = False,
       isStringInArg = False,
       isInWhiteSpace = True,
       zArg = 0,
       shouldBeTerminated = False\<rparr>"

text \<open>
  \<open>parseCommandLine\<close>: a null pointer leaves \<open>paramVector\<close> as it is; otherwise the vector
  is assigned the zero-terminated strings the collected pointers point to.
\<close>

definition parseCommandLine :: "string option \<Rightarrow> ParamVector \<Rightarrow> ParamVector" where
  "parseCommandLine commandLine paramVector =
    (case commandLine of
       None \<Rightarrow> paramVector
     | Some cl \<Rightarrow> (let s = scanCommandLine cl in map (cstr (cmdLine s)) (args s)))"

subsection \<open>\<open>convertParamsToNotepadStyle\<close>\<close>

text \<open>
  The iterator loop over \<open>params\<close>; \<open>it\<close> is the index the iterator stands at, and
  \<open>it->assign\<close> overwrites the element in place.
\<close>

function convertParamsToNotepadStyle_loop :: "nat \<Rightarrow> ParamVector \<Rightarrow> ParamVector" where
  "convertParamsToNotepadStyle_loop it params =
    (if it < length params then
       convertParamsToNotepadStyle_loop (it + 1)
         (if params ! it = ''/p'' \<or> params ! it = ''/P''
          then params[it := ''-quickPrint''] else params)
     else params)"
  by pat_completeness auto
termination
  by (relation "measure (\<lambda>(it, params). length params - it)") auto

declare convertParamsToNotepadStyle_loop.simps [simp del]

definition convertParamsToNotepadStyle :: "ParamVector \<Rightarrow> ParamVector" where
  "convertParamsToNotepadStyle params = convertParamsToNotepadStyle_loop 0 params"

subsection \<open>\<open>isInList\<close>, \<open>getParamVal\<close>, \<open>getParamValFromString\<close>\<close>

text \<open>\<open>params.erase(params.begin() + i)\<close> for an index inside the vector.\<close>

definition erase :: "'a list \<Rightarrow> nat \<Rightarrow> 'a list" where
  "erase v i = take i v @ drop (Suc i) v"

text \<open>
  \<open>isInList\<close> returns whether the token was found, together with \<open>params\<close> as the call
  leaves it.
\<close>

function isInList_loop :: "string \<Rightarrow> bool \<Rightarrow> nat \<Rightarrow> ParamVector \<Rightarrow> bool \<times> ParamVector" where
  "isInList_loop token2Find eraseArg it params =
    (if it < length params then
       (if token2Find = params ! it
        then (True, if eraseArg then erase params it else params)
        else isInList_loop token2Find eraseArg (it + 1) params)
     else (False, params))"
  by pat_completeness auto
termination
  by (relation "measure (\<lambda>(token2Find, eraseArg, it, params). length params - it)") auto

declare isInList_loop.simps [simp del]

definition isInList :: "string \<Rightarrow> ParamVector \<Rightarrow> bool \<Rightarrow> bool \<times> ParamVector" where
  "isInList token2Find params eraseArg = isInList_loop token2Find eraseArg 0 params"

text \<open>
  \<open>getParamVal\<close> returns the found flag, the string left in \<open>value\<close> and \<open>params\<close> as the
  call leaves it. The test \<open>token[0] == '-' && lstrlen(token) >= 2 && token[1] == c\<close> reads
  the terminator of a token shorter than two characters, never beyond it.
\<close>

definition isParam :: "char \<Rightarrow> string \<Rightarrow> bool" where
  "isParam c token =
    (case token of
       t0 # t1 # rest \<Rightarrow> t0 = CHR ''-'' \<and> t1 = c
     | _ \<Rightarrow> False)"

function getParamVal_loop :: "char \<Rightarrow> nat \<Rightarrow> nat \<Rightarrow> ParamVector \<Rightarrow> bool \<times> string \<times> ParamVector" where
  "getParamVal_loop c i nbItems params =
    (if i < nbItems then
       (if isParam c (params ! i)
        then (True, drop 2 (params ! i), erase params i)
        else getParamVal_loop c (i + 1) nbItems params)
     else (False, [], params))"
  by pat_completeness auto
termination
  by (relation "measure (\<lambda>(c, i, nbItems, params). nbItems - i)") auto

declare getParamVal_loop.simps [simp del]

definition getParamVal :: "char \<Rightarrow> ParamVector \<Rightarrow> bool \<times> string \<times> ParamVector" where
  "getParamVal c params = getParamVal_loop c 0 (length params) params"

text \<open>
  \<open>getParamValFromString\<close>: \<open>tokenStr.find(str)\<close> is position 0 exactly when \<open>str\<close> is a
  prefix of the token.
\<close>

function getParamValFromString_loop ::
    "string \<Rightarrow> nat \<Rightarrow> nat \<Rightarrow> ParamVector \<Rightarrow> bool \<times> string \<times> ParamVector" where
  "getParamValFromString_loop str i nbItems params =
    (if i < nbItems then
       (if prefix str (params ! i)
        then (True, drop (length str) (params ! i), erase params i)
        else getParamValFromString_loop str (i + 1) nbItems params)
     else (False, [], params))"
  by pat_completeness auto
termination
  by (relation "measure (\<lambda>(str, i, nbItems, params). nbItems - i)") auto

declare getParamValFromString_loop.simps [simp del]

definition getParamValFromString :: "string \<Rightarrow> ParamVector \<Rightarrow> bool \<times> string \<times> ParamVector" where
  "getParamValFromString str params =
    getParamValFromString_loop str 0 (length params) params"

subsection \<open>\<open>getNumberFromParam\<close>\<close>

text \<open>
  The result is the returned number, the flag \<open>isParamePresent\<close> and \<open>params\<close> as the call
  leaves it. The C runtime's \<open>_ttoi64\<close> is not part of the repository and is a parameter.
\<close>

definition getNumberFromParam ::
    "(string \<Rightarrow> int) \<Rightarrow> char \<Rightarrow> ParamVector \<Rightarrow> int \<times> bool \<times> ParamVector" where
  "getNumberFromParam ttoi64 paramName params =
    (case getParamVal paramName params of
       (False, numStr, params') \<Rightarrow> (- 1, False, params')
     | (True, numStr, params') \<Rightarrow> (ttoi64 numStr, True, params'))"

subsection \<open>\<open>getGhostTypingSpeedFromParam\<close>\<close>

text \<open>
  \<open>std::stoi(str, 0)\<close> of the C++ standard library (base 10): it skips leading white
  space, reads an optional sign and the longest run of decimal digits, throws
  \<open>std::invalid_argument\<close> when there is no digit and \<open>std::out_of_range\<close> when the
  number does not fit an \<open>int\<close>; what follows the digits is ignored.
\<close>

datatype exception = invalid_argument | out_of_range

definition isspace :: "char \<Rightarrow> bool" where
  "isspace c = (c = blank \<or> (of_char c :: nat) \<in> {9, 10, 11, 12, 13})"

definition isdigit :: "char \<Rightarrow> bool" where
  "isdigit c = (48 \<le> (of_char c :: nat) \<and> (of_char c :: nat) \<le> 57)"

definition digits_value :: "string \<Rightarrow> int" where
  "digits_value ds = foldl (\<lambda>acc d. 10 * acc + (int (of_char d) - 48)) 0 ds"

definition stoi :: "string \<Rightarrow> exception + int" where
  "stoi str =
    (let s1 = dropWhile isspace str;
         neg = (s1 \<noteq> [] \<and> hd s1 = CHR ''-'');
         s2 = (if s1 \<noteq> [] \<and> (hd s1 = CHR ''-'' \<or> hd s1 = CHR ''+'') then tl s1 else s1);
         ds = takeWhile isdigit s2;
         v = (if neg then - digits_value ds else digits_value ds)
     in if ds = [] then Inl invalid_argument
        else if v < - 2147483648 \<or> 2147483647 < v then Inl out_of_range
        else Inr v)"

text \<open>
  The function has no handler: an exception of \<open>std::stoi\<close> leaves it, after
  \<open>getParamValFromString\<close> has erased the token.
\<close>

definition getGhostTypingSpeedFromParam :: "ParamVector \<Rightarrow> (exception + int) \<times> ParamVector" where
  "getGhostTypingSpeedFromParam params =
    (case getParamValFromString ''-qSpeed'' params of
       (False, speedStr, params') \<Rightarrow> (Inr (- 1), params')
     | (True, speedStr, params') \<Rightarrow>
         (case stoi speedStr of
            Inl e \<Rightarrow> (Inl e, params')
          | Inr speed \<Rightarrow>
              (if speed \<le> 0 \<or> speed > 3 then (Inr (- 1), params') else (Inr speed, params'))))"

subsection \<open>\<open>stripIgnoredParams\<close>\<close>

function stripIgnoredParams_loop :: "nat \<Rightarrow> ParamVector \<Rightarrow> ParamVector" where
  "stripIgnoredParams_loop it params =
    (if it < length params then
       (if params ! it = ''-z'' then
          stripIgnoredParams_loop it
            (erase (if it + 1 < length params then erase params (it + 1) else params) it)
        else stripIgnoredParams_loop (it + 1) params)
     else params)"
  by pat_completeness auto
termination
  by (relation "measure (\<lambda>(it, params). length params - it)") (auto simp: erase_def)

declare stripIgnoredParams_loop.simps [simp del]

definition stripIgnoredParams :: "ParamVector \<Rightarrow> ParamVector" where
  "stripIgnoredParams params = stripIgnoredParams_loop 0 params"

text \<open>
  The stripping pass as the specification words it: a token equal to \<open>-z\<close> goes together
  with the token after it, if there is one, and the scan goes on behind them.
\<close>

fun strip_spec :: "ParamVector \<Rightarrow> ParamVector" where
  "strip_spec [] = []"
| "strip_spec [p] = (if p = ''-z'' then [] else [p])"
| "strip_spec (p # q # ps) = (if p = ''-z'' then strip_spec ps else p # strip_spec (q # ps))"

subsection \<open>Splitting on white space, as the specification words it\<close>

text \<open>
  Runs of blanks and tabs separate the words; a word is a maximal run of other characters.
\<close>

definition isWhite :: "char \<Rightarrow> bool" where
  "isWhite c = (c = tab \<or> c = blank)"

function split_ws :: "string \<Rightarrow> string list" where
  "split_ws [] = []"
| "split_ws (c # cs) =
    (if isWhite c then split_ws cs
     else (c # takeWhile (\<lambda>x. \<not> isWhite x) cs) # split_ws (dropWhile (\<lambda>x. \<not> isWhite x) cs))"
  by pat_completeness auto
termination
  by (relation "measure length") (auto simp: length_dropWhile_le less_Suc_eq_le)

text \<open>Some \<open>=\<close> of the string is directly followed by a double quote.\<close>

fun eqQuote :: "string \<Rightarrow> bool" where
  "eqQuote (a # b # cs) = ((a = CHR ''='' \<and> b = dquote) \<or> eqQuote (b # cs))"
| "eqQuote cs = False"

text \<open>The rewrite of one token by \<open>convertParamsToNotepadStyle\<close>.\<close>

definition notepadStyle :: "string \<Rightarrow> string" where
  "notepadStyle t = (if t = ''/p'' \<or> t = ''/P'' then ''-quickPrint'' else t)"

subsection \<open>The scanner, one character at a time\<close>

text \<open>
  For the proofs the loop of \<open>parseCommandLine\<close> is restated over the characters alone,
  without the buffer and the pointers: \<open>toks\<close> are the strings the pointers collected so
  far point to, read up to the current position; \<open>opn\<close> says that the last of them has
  not met a zero terminator yet and still grows; \<open>btw\<close>, \<open>sia\<close>, \<open>iws\<close>, \<open>zc\<close> and
  \<open>fin\<close> are the three flags, \<open>zArg\<close> and \<open>shouldBeTerminated\<close>; \<open>peq\<close> says that the
  previous character was \<open>=\<close>. Once \<open>fin\<close> is set the loop has stopped and the rest of the
  line belongs to the last string. Lemma \<open>scanCommandLine_refines\<close> below shows that this
  is what the loop over the buffer computes.
\<close>

record tokenizer =
  toks :: "string list"
  opn :: bool
  btw :: bool
  sia :: bool
  iws :: bool
  zc :: int
  fin :: bool
  peq :: bool

definition grow :: "string list \<Rightarrow> bool \<Rightarrow> char \<Rightarrow> string list" where
  "grow ts b c = (if b \<and> ts \<noteq> [] then butlast ts @ [last ts @ [c]] else ts)"

definition feed :: "tokenizer \<Rightarrow> char \<Rightarrow> tokenizer" where
  "feed a c =
    (if fin a then a\<lparr>toks := grow (toks a) True c\<rparr>
     else if c = dquote then
       (if \<not> sia a \<and> \<not> btw a \<and> peq a then
          a\<lparr>toks := grow (toks a) (opn a) c, sia := True, iws := False, peq := False\<rparr>
        else if sia a then
          a\<lparr>toks := grow (toks a) (opn a) c, sia := False, iws := False, peq := False\<rparr>
        else if \<not> btw a then
          a\<lparr>toks := toks a @ [[]], opn := True, btw := True,
            zc := (if zc a = 1 then zc a + 1 else zc a), iws := False, peq := False\<rparr>
        else
          a\<lparr>opn := False, btw := False, iws := False, peq := False\<rparr>)
     else if c = tab \<or> c = blank then
       (if \<not> btw a \<and> \<not> sia a then
          a\<lparr>opn := False, iws := True,
            zc := (if toks a \<noteq> [] \<and> last (toks a) = ''-z'' then zc a + 1 else zc a),
            peq := False\<rparr>
        else
          a\<lparr>toks := grow (toks a) (opn a) c, iws := True, peq := False\<rparr>)
     else
       (if \<not> btw a \<and> \<not> sia a \<and> iws a then
          a\<lparr>toks := toks a @ [[c]], opn := True,
            fin := (if zc a = 2 then True else fin a), iws := False, peq := (c = CHR ''='')\<rparr>
        else
          a\<lparr>toks := grow (toks a) (opn a) c, peq := (c = CHR ''='')\<rparr>))"

definition tokenizer0 :: tokenizer where
  "tokenizer0 = \<lparr>toks = [], opn = False, btw = False, sia = False, iws = True, zc = 0,
                 fin = False, peq = False\<rparr>"

text \<open>The relation between the two formulations at loop index \<open>i\<close>.\<close>

definition seg :: "string \<Rightarrow> nat \<Rightarrow> nat \<Rightarrow> string" where
  "seg mem p i = take (i - p) (drop p mem)"

definition sofar :: "string \<Rightarrow> nat \<Rightarrow> nat \<Rightarrow> string" where
  "sofar mem p i = takeWhile (\<lambda>c. c \<noteq> NUL) (seg mem p i)"

definition mem_rel :: "string \<Rightarrow> nat \<Rightarrow> string \<Rightarrow> nat list \<Rightarrow> string list \<Rightarrow> bool \<Rightarrow> bool" where
  "mem_rel raw i mem ps ts b \<longleftrightarrow>
     i \<le> length raw \<and> length mem = Suc (length raw) \<and> drop i mem = drop i raw @ [NUL] \<and>
     (\<forall>p \<in> set ps. p \<le> i) \<and>
     ts = map (\<lambda>p. sofar mem p i) ps \<and>
     (\<forall>p \<in> set (butlast ps). NUL \<in> set (seg mem p i)) \<and>
     (b \<longleftrightarrow> ps \<noteq> [] \<and> NUL \<notin> set (seg mem (last ps) i))"

definition rel :: "string \<Rightarrow> nat \<Rightarrow> scanner \<Rightarrow> tokenizer \<Rightarrow> bool" where
  "rel raw i s a \<longleftrightarrow>
     mem_rel raw i (cmdLine s) (args s) (toks a) (opn a) \<and>
     btw a = isBetweenFileNameQuotes s \<and> sia a = isStringInArg s \<and>
     iws a = isInWhiteSpace s \<and> zc a = zArg s \<and> fin a = shouldBeTerminated s \<and>
     (peq a \<longleftrightarrow> 0 < i \<and> cmdLine s ! (i - 1) = CHR ''='') \<and>
     (iws a \<and> \<not> btw a \<and> \<not> sia a \<longrightarrow> \<not> opn a) \<and>
     (fin a \<longrightarrow> opn a)"

definition agrees :: "scanner \<Rightarrow> tokenizer \<Rightarrow> bool" where
  "agrees s a \<longleftrightarrow>
     map (cstr (cmdLine s)) (args s) = toks a \<and>
     isBetweenFileNameQuotes s = btw a \<and> isStringInArg s = sia a \<and>
     isInWhiteSpace s = iws a \<and> zArg s = zc a \<and> shouldBeTerminated s = fin a"

text \<open>The strings that can no longer change: all but a last one that still grows.\<close>

definition settled :: "tokenizer \<Rightarrow> string list" where
  "settled a = (if opn a then butlast (toks a) else toks a)"

text \<open>What holds of every state the character-wise scanner reaches.\<close>

definition wf_tok :: "tokenizer \<Rightarrow> bool" where
  "wf_tok a \<longleftrightarrow>
     (iws a \<and> \<not> btw a \<and> \<not> sia a \<longrightarrow> \<not> opn a) \<and> (fin a \<longrightarrow> opn a) \<and> (opn a \<longrightarrow> toks a \<noteq> [])"

text \<open>
  A string that holds a quote holds \<open>=\<close> directly followed by a quote. It holds of the
  strings that no longer belong to a rest kept as it is; while a string after \<open>=\<close> is
  open the growing argument already holds its opening quote, and after \<open>=\<close> the growing
  argument ends in it.
\<close>

definition quoted_by_eq :: "string \<Rightarrow> bool" where
  "quoted_by_eq t \<longleftrightarrow> (dquote \<in> set t \<longrightarrow> eqQuote t)"

definition quote_inv :: "tokenizer \<Rightarrow> bool" where
  "quote_inv a \<longleftrightarrow>
     (if fin a then \<forall>t \<in> set (butlast (toks a)). quoted_by_eq t
      else (\<forall>t \<in> set (toks a). quoted_by_eq t) \<and>
           (sia a \<and> opn a \<longrightarrow> eqQuote (last (toks a))) \<and>
           (peq a \<and> opn a \<longrightarrow> last (toks a) \<noteq> [] \<and> last (last (toks a)) = CHR ''=''))"

section \<open>The two formulations of the scanner agree\<close>

lemma seg_update:
  "p \<le> i \<Longrightarrow> i < length mem \<Longrightarrow> seg (mem[i := v]) p (Suc i) = seg mem p i @ [v]"
  by (simp add: seg_def Suc_diff_le take_Suc_conv_app_nth drop_update_swap)

lemma seg_same:
  "p \<le> i \<Longrightarrow> i < length mem \<Longrightarrow> seg mem p (Suc i) = seg mem p i @ [mem ! i]"
  using seg_update[of p i mem "mem ! i"] by simp

lemma seg_empty: "seg mem p p = []"
  by (simp add: seg_def)

lemma tw_all:
  "NUL \<notin> set xs \<Longrightarrow> takeWhile (\<lambda>c. c \<noteq> NUL) (xs @ ys) = xs @ takeWhile (\<lambda>c. c \<noteq> NUL) ys"
  by (induction xs) auto

lemma tw_stop:
  "NUL \<in> set xs \<Longrightarrow> takeWhile (\<lambda>c. c \<noteq> NUL) (xs @ ys) = takeWhile (\<lambda>c. c \<noteq> NUL) xs"
  by (induction xs) auto

lemma tw_nul:
  "NUL \<notin> set xs \<Longrightarrow> takeWhile (\<lambda>c. c \<noteq> NUL) (xs @ NUL # ys) = xs"
  by (induction xs) auto

lemma sofar_open: "NUL \<notin> set (seg mem p i) \<Longrightarrow> sofar mem p i = seg mem p i"
  using tw_all[of "seg mem p i" "[]"] by (simp add: sofar_def)

lemma sofar_snoc:
  assumes "seg mem' p (Suc i) = seg mem p i @ [v]"
  shows "sofar mem' p (Suc i) =
     (if NUL \<in> set (seg mem p i) then sofar mem p i
      else seg mem p i @ (if v = NUL then [] else [v]))"
  using assms by (simp add: sofar_def tw_all tw_stop)

lemma mem_rel_nth: "mem_rel raw i mem ps ts b \<Longrightarrow> i < length raw \<Longrightarrow> mem ! i = raw ! i"
proof -
  assume r: "mem_rel raw i mem ps ts b" and i: "i < length raw"
  then have "drop i mem = drop i raw @ [NUL]" by (simp add: mem_rel_def)
  then have "hd (drop i mem) = hd (drop i raw @ [NUL])" by simp
  moreover have "i < length mem" using r i by (simp add: mem_rel_def)
  ultimately show ?thesis using i by (simp add: hd_drop_conv_nth hd_append)
qed

lemma mem_rel_drop_Suc:
  assumes "mem_rel raw i mem ps ts b" "i < length raw"
  shows "drop (Suc i) (mem[i := v]) = drop (Suc i) raw @ [NUL]"
proof -
  have "drop i mem = drop i raw @ [NUL]" using assms by (simp add: mem_rel_def)
  then have "tl (drop i mem) = tl (drop i raw @ [NUL])" by simp
  then have "drop (Suc i) mem = drop (Suc i) raw @ [NUL]"
    using assms(2) by (simp add: drop_Suc tl_drop)
  then show ?thesis by simp
qed

text \<open>The tokens seen so far, when position i is overwritten by v (or kept, v = mem ! i).\<close>

lemma map_sofar_step:
  assumes le: "\<forall>p \<in> set ps. p \<le> i" and i: "i < length mem"
    and closed: "\<forall>p \<in> set (butlast ps). NUL \<in> set (seg mem p i)"
  shows "map (\<lambda>p. sofar (mem[i := v]) p (Suc i)) ps =
     (if v \<noteq> NUL then grow (map (\<lambda>p. sofar mem p i) ps) (ps \<noteq> [] \<and> NUL \<notin> set (seg mem (last ps) i)) v
      else map (\<lambda>p. sofar mem p i) ps)"
proof (cases ps rule: rev_cases)
  case Nil
  then show ?thesis by (simp add: grow_def)
next
  case (snoc qs q)
  have q: "q \<le> i" using le snoc by simp
  have qs: "\<And>p. p \<in> set qs \<Longrightarrow> sofar (mem[i := v]) p (Suc i) = sofar mem p i"
  proof -
    fix p assume p: "p \<in> set qs"
    then have "p \<le> i" "NUL \<in> set (seg mem p i)" using le closed snoc by auto
    then show "sofar (mem[i := v]) p (Suc i) = sofar mem p i"
      using sofar_snoc[OF seg_update[OF _ i], of p v] by simp
  qed
  have lastq: "sofar (mem[i := v]) q (Suc i) =
     (if NUL \<in> set (seg mem q i) then sofar mem q i
      else seg mem q i @ (if v = NUL then [] else [v]))"
    using sofar_snoc[OF seg_update[OF q i], of v] by simp
  show ?thesis
    using snoc qs lastq by (auto simp: grow_def sofar_open)
qed

lemma closed_step:
  assumes "p \<le> i" "i < length mem"
  shows "NUL \<in> set (seg (mem[i := v]) p (Suc i)) \<longleftrightarrow> NUL \<in> set (seg mem p i) \<or> v = NUL"
  using seg_update[OF assms, of v] by auto

lemma mem_rel_write:
  assumes r: "mem_rel raw i mem ps ts b" and i: "i < length raw"
  shows "mem_rel raw (Suc i) (mem[i := v]) ps
           (if v \<noteq> NUL then grow ts b v else ts) (b \<and> v \<noteq> NUL)"
proof -
  have im: "i < length mem" using r i by (simp add: mem_rel_def)
  have le: "\<forall>p \<in> set ps. p \<le> i" using r by (simp add: mem_rel_def)
  have closed: "\<forall>p \<in> set (butlast ps). NUL \<in> set (seg mem p i)" using r by (simp add: mem_rel_def)
  have ts: "ts = map (\<lambda>p. sofar mem p i) ps" using r by (simp add: mem_rel_def)
  have b: "b \<longleftrightarrow> ps \<noteq> [] \<and> NUL \<notin> set (seg mem (last ps) i)" using r by (simp add: mem_rel_def)
  have 1: "(if v \<noteq> NUL then grow ts b v else ts) = map (\<lambda>p. sofar (mem[i := v]) p (Suc i)) ps"
    using map_sofar_step[OF le im closed, of v] ts b by simp
  have 2: "\<forall>p \<in> set (butlast ps). NUL \<in> set (seg (mem[i := v]) p (Suc i))"
  proof
    fix p assume p: "p \<in> set (butlast ps)"
    then have "p \<le> i" using le by (auto dest: in_set_butlastD)
    then show "NUL \<in> set (seg (mem[i := v]) p (Suc i))"
      using closed p closed_step[OF _ im, of p v] by simp
  qed
  have 3: "(b \<and> v \<noteq> NUL) \<longleftrightarrow> ps \<noteq> [] \<and> NUL \<notin> set (seg (mem[i := v]) (last ps) (Suc i))"
  proof (cases "ps = []")
    case True
    then show ?thesis using b by simp
  next
    case False
    then have "last ps \<le> i" using le by simp
    then show ?thesis using b False closed_step[OF _ im, of "last ps" v] by auto
  qed
  have 4: "\<forall>p \<in> set ps. p \<le> Suc i" using le by auto
  show ?thesis
    unfolding mem_rel_def
    using 1 2 3 4 i r mem_rel_drop_Suc[OF r i, of v]
    by (simp add: mem_rel_def)
qed

lemma mem_rel_keep:
  assumes r: "mem_rel raw i mem ps ts b" and i: "i < length raw" and c: "raw ! i \<noteq> NUL"
  shows "mem_rel raw (Suc i) mem ps (grow ts b (raw ! i)) b"
  using mem_rel_write[OF r i, of "raw ! i"] mem_rel_nth[OF r i] c
  by (metis list_update_id)

lemma mem_rel_zap:
  assumes r: "mem_rel raw i mem ps ts b" and i: "i < length raw"
  shows "mem_rel raw (Suc i) (mem[i := NUL]) ps ts False"
  using mem_rel_write[OF r i, of NUL] by simp

text \<open>A pointer pushed at offset q (i or i + 1) after all earlier tokens are closed.\<close>

lemma mem_rel_push:
  assumes r: "mem_rel raw (Suc i) mem ps ts False" and q: "q \<le> Suc i"
    and fresh: "NUL \<notin> set (seg mem q (Suc i))"
  shows "mem_rel raw (Suc i) mem (ps @ [q]) (ts @ [seg mem q (Suc i)]) True"
proof -
  have "\<forall>p \<in> set ps. NUL \<in> set (seg mem p (Suc i))"
  proof (cases ps rule: rev_cases)
    case Nil
    then show ?thesis by simp
  next
    case (snoc rs r')
    then show ?thesis using r by (auto simp: mem_rel_def)
  qed
  then show ?thesis
    using r q fresh by (simp add: mem_rel_def sofar_open)
qed

lemma drop_seg: "p \<le> j \<Longrightarrow> drop p mem = seg mem p j @ drop j mem"
proof -
  assume "p \<le> j"
  then have "drop (j - p) (drop p mem) = drop j mem" by simp
  moreover have "drop p mem = take (j - p) (drop p mem) @ drop (j - p) (drop p mem)"
    by (simp only: append_take_drop_id)
  ultimately show ?thesis by (simp only: seg_def)
qed

lemma mem_rel_last:
  assumes r: "mem_rel raw i mem ps ts b" and i: "i < length raw" and ne: "ps \<noteq> []"
  shows "cstr (mem[i := NUL]) (last ps) = last ts"
proof -
  let ?p = "last ps"
  have im: "i < length mem" using r i by (simp add: mem_rel_def)
  have p: "?p \<le> i" using r ne by (simp add: mem_rel_def)
  have ts: "last ts = sofar mem ?p i" using r ne by (simp add: mem_rel_def last_map)
  have "drop ?p (mem[i := NUL]) = seg (mem[i := NUL]) ?p (Suc i) @ drop (Suc i) (mem[i := NUL])"
    using p by (intro drop_seg) simp
  then have "drop ?p (mem[i := NUL]) = seg mem ?p i @ NUL # drop (Suc i) (mem[i := NUL])"
    using seg_update[OF p im, of NUL] by simp
  then have "cstr (mem[i := NUL]) ?p = takeWhile (\<lambda>c. c \<noteq> NUL) (seg mem ?p i @ [NUL])"
    by (cases "NUL \<in> set (seg mem ?p i)") (simp_all add: cstr_def tw_all tw_stop)
  then have c: "cstr (mem[i := NUL]) ?p = takeWhile (\<lambda>c. c \<noteq> NUL) (seg mem ?p i @ [NUL])" .
  show ?thesis
  proof (cases "NUL \<in> set (seg mem ?p i)")
    case True
    then show ?thesis using c ts by (simp only: tw_stop sofar_def)
  next
    case False
    then have "cstr (mem[i := NUL]) ?p = seg mem ?p i" using c tw_nul[OF False, of "[]"] by simp
    then show ?thesis using ts sofar_open[OF False] by simp
  qed
qed


lemma special_chars:
  "dquote \<noteq> tab" "dquote \<noteq> blank" "dquote \<noteq> NUL" "tab \<noteq> NUL" "blank \<noteq> NUL"
  "dquote \<noteq> CHR ''=''" "tab \<noteq> CHR ''=''" "blank \<noteq> CHR ''=''" "NUL \<noteq> CHR ''=''"
  "tab \<noteq> dquote" "blank \<noteq> dquote"
  "CHR ''='' \<noteq> dquote" "CHR ''='' \<noteq> tab" "CHR ''='' \<noteq> blank" "CHR ''='' \<noteq> NUL"
  by (simp_all add: dquote_def tab_def blank_def NUL_def)

lemma rel_step:
  assumes r: "rel raw i s a" and i: "i < length raw" and nt: "\<not> shouldBeTerminated s"
    and c: "raw ! i \<noteq> NUL"
  shows "rel raw (Suc i) (scanChar i s) (feed a (raw ! i))"
proof -
  let ?c = "raw ! i"
  let ?mem = "cmdLine s"
  have m: "mem_rel raw i ?mem (args s) (toks a) (opn a)" using r by (simp add: rel_def)
  have ci: "?mem ! i = ?c" using mem_rel_nth[OF m i] .
  have im: "i < length ?mem" using m i by (simp add: mem_rel_def)
  have fl: "btw a = isBetweenFileNameQuotes s" "sia a = isStringInArg s"
    "iws a = isInWhiteSpace s" "zc a = zArg s" "\<not> fin a" "\<not> shouldBeTerminated s"
    "iws a \<and> \<not> btw a \<and> \<not> sia a \<longrightarrow> \<not> opn a"
    using r nt by (simp_all add: rel_def)
  have pq: "peq a \<longleftrightarrow> 0 < i \<and> ?mem ! (i - 1) = CHR ''=''"
    using r by (simp add: rel_def)
  have keep: "mem_rel raw (Suc i) ?mem (args s) (grow (toks a) (opn a) ?c) (opn a)"
    using mem_rel_keep[OF m i c] .
  have zap: "mem_rel raw (Suc i) (?mem[i := NUL]) (args s) (toks a) False"
    using mem_rel_zap[OF m i] .
  have qpush: "mem_rel raw (Suc i) (?mem[i := NUL]) (args s @ [Suc i]) (toks a @ [[]]) True"
    using mem_rel_push[OF zap, of "Suc i"] by (simp add: seg_empty)
  have push: "\<not> opn a \<Longrightarrow> mem_rel raw (Suc i) ?mem (args s @ [i]) (toks a @ [[?c]]) True"
  proof -
    assume no: "\<not> opn a"
    have "seg ?mem i (Suc i) = [?c]" using seg_same[of i i ?mem] im ci by (simp add: seg_empty)
    then show ?thesis using mem_rel_push[of raw i ?mem "args s" "toks a" i] keep no c
      by (simp add: grow_def)
  qed
  have lastz: "args s \<noteq> [] \<Longrightarrow> cstr (?mem[i := NUL]) (last (args s)) = last (toks a)"
    using mem_rel_last[OF m i] .
  have ne: "toks a \<noteq> [] \<longleftrightarrow> args s \<noteq> []" using m by (simp add: mem_rel_def)
  have upd: "(?mem[i := NUL]) ! i = NUL" using im by simp
  show ?thesis
  proof (cases "?c = dquote")
    case q: True
    have cq: "?mem ! i = dquote" using ci q by simp
    show ?thesis
    proof (cases "\<not> isStringInArg s \<and> \<not> isBetweenFileNameQuotes s \<and> peq a")
      case True
      then have s': "scanChar i s = s\<lparr>isStringInArg := True, isInWhiteSpace := False\<rparr>"
        using cq fl pq by (simp add: scanChar_def)
      have a': "feed a ?c = a\<lparr>toks := grow (toks a) (opn a) ?c, sia := True, iws := False, peq := False\<rparr>"
        using True q fl by (simp add: feed_def)
      show ?thesis unfolding s' a' using keep fl cq by (simp add: rel_def special_chars)
    next
      case n1: False
      show ?thesis
      proof (cases "isStringInArg s")
        case True
        then have s': "scanChar i s = s\<lparr>isStringInArg := False, isInWhiteSpace := False\<rparr>"
          using cq fl by (simp add: scanChar_def)
        have a': "feed a ?c = a\<lparr>toks := grow (toks a) (opn a) ?c, sia := False, iws := False, peq := False\<rparr>"
          using True q fl by (simp add: feed_def)
        show ?thesis unfolding s' a' using keep fl cq by (simp add: rel_def special_chars)
      next
        case n2: False
        have np: "\<not> isBetweenFileNameQuotes s \<Longrightarrow> \<not> peq a" using n1 n2 by simp
        show ?thesis
        proof (cases "isBetweenFileNameQuotes s")
          case False
          then have s': "scanChar i s = s\<lparr>args := args s @ [i + 1],
              isBetweenFileNameQuotes := True, cmdLine := ?mem[i := NUL],
              zArg := (if zArg s = 1 then zArg s + 1 else zArg s), isInWhiteSpace := False\<rparr>"
            using cq np pq n2 by (auto simp add: scanChar_def)
          have a': "feed a ?c = a\<lparr>toks := toks a @ [[]], opn := True, btw := True,
              zc := (if zc a = 1 then zc a + 1 else zc a), iws := False, peq := False\<rparr>"
            using False q fl np n2 by (simp add: feed_def)
          show ?thesis unfolding s' a' using qpush fl upd by (simp add: rel_def special_chars)
        next
          case True
          then have s': "scanChar i s = s\<lparr>isBetweenFileNameQuotes := False,
              cmdLine := ?mem[i := NUL], isInWhiteSpace := False\<rparr>"
            using cq n2 by (simp add: scanChar_def)
          have a': "feed a ?c = a\<lparr>opn := False, btw := False, iws := False, peq := False\<rparr>"
            using True q fl n2 by (simp add: feed_def)
          show ?thesis unfolding s' a' using zap fl upd by (simp add: rel_def special_chars)
        qed
      qed
    qed
  next
    case nq: False
    have cnq: "?mem ! i \<noteq> dquote" using ci nq by simp
    show ?thesis
    proof (cases "?c = tab \<or> ?c = blank")
      case w: True
      have cw: "?mem ! i = tab \<or> ?mem ! i = blank" using ci w by simp
      have ceq: "?mem ! i \<noteq> CHR ''=''" using cw special_chars by auto
      show ?thesis
      proof (cases "\<not> isBetweenFileNameQuotes s \<and> \<not> isStringInArg s")
        case True
        then have s': "scanChar i s = s\<lparr>isInWhiteSpace := True, cmdLine := ?mem[i := NUL],
            zArg := (if args s \<noteq> [] \<and> cstr (?mem[i := NUL]) (last (args s)) = ''-z''
                     then zArg s + 1 else zArg s)\<rparr>"
          using cw cnq by (auto simp add: scanChar_def)
        have a': "feed a ?c = a\<lparr>opn := False, iws := True,
            zc := (if toks a \<noteq> [] \<and> last (toks a) = ''-z'' then zc a + 1 else zc a),
            peq := False\<rparr>"
          using True w nq fl by (simp add: feed_def)
        have z: "(args s \<noteq> [] \<and> cstr (?mem[i := NUL]) (last (args s)) = ''-z'')
            \<longleftrightarrow> (toks a \<noteq> [] \<and> last (toks a) = ''-z'')"
          using lastz ne by auto
        show ?thesis unfolding s' a' z using zap fl upd by (simp add: rel_def special_chars)
      next
        case False
        then have s': "scanChar i s = s\<lparr>isInWhiteSpace := True\<rparr>"
          using cw cnq by (auto simp add: scanChar_def)
        have a': "feed a ?c = a\<lparr>toks := grow (toks a) (opn a) ?c, iws := True, peq := False\<rparr>"
          using False w nq fl by (auto simp add: feed_def)
        show ?thesis unfolding s' a' using keep fl ceq False by (auto simp add: rel_def)
      qed
    next
      case nw: False
      have cnw: "?mem ! i \<noteq> tab" "?mem ! i \<noteq> blank" using ci nw by simp_all
      show ?thesis
      proof (cases "\<not> isBetweenFileNameQuotes s \<and> \<not> isStringInArg s \<and> isInWhiteSpace s")
        case True
        then have s': "scanChar i s = s\<lparr>args := args s @ [i],
            shouldBeTerminated := (if zArg s = 2 then True else shouldBeTerminated s),
            isInWhiteSpace := False\<rparr>"
          using cnw cnq by (auto simp add: scanChar_def)
        have a': "feed a ?c = a\<lparr>toks := toks a @ [[?c]], opn := True,
            fin := (if zc a = 2 then True else fin a), iws := False, peq := (?c = CHR ''='')\<rparr>"
          using True nw nq fl by (simp add: feed_def)
        have "\<not> opn a" using True fl by simp
        then show ?thesis unfolding s' a' using push fl ci by (simp add: rel_def)
      next
        case False
        then have s': "scanChar i s = s"
          using cnw cnq by (auto simp add: scanChar_def)
        have a': "feed a ?c = a\<lparr>toks := grow (toks a) (opn a) ?c, peq := (?c = CHR ''='')\<rparr>"
          using False nw nq fl by (auto simp add: feed_def)
        show ?thesis unfolding s' a' using keep fl ci False by (auto simp add: rel_def)
      qed
    qed
  qed
qed


lemma cstr_closed:
  assumes "p \<le> i" "NUL \<in> set (seg mem p i)"
  shows "cstr mem p = sofar mem p i"
  using drop_seg[OF assms(1), of mem] assms(2) by (simp add: cstr_def sofar_def tw_stop)

lemma cstr_open:
  assumes "p \<le> i" "NUL \<notin> set (seg mem p i)" "drop i mem = rest @ [NUL]" "NUL \<notin> set rest"
  shows "cstr mem p = seg mem p i @ rest"
proof -
  have "drop p mem = (seg mem p i @ rest) @ NUL # []"
    using drop_seg[OF assms(1), of mem] assms(3) by simp
  moreover have "NUL \<notin> set (seg mem p i @ rest)" using assms by simp
  ultimately show ?thesis using tw_nul[of "seg mem p i @ rest" "[]"] by (simp add: cstr_def)
qed

lemma feed_fin:
  "fin a \<Longrightarrow> toks a \<noteq> [] \<Longrightarrow>
   foldl feed a xs = a\<lparr>toks := butlast (toks a) @ [last (toks a) @ xs]\<rparr>"
proof (induction xs arbitrary: a)
  case Nil
  then show ?case by simp
next
  case (Cons x xs)
  have f: "feed a x = a\<lparr>toks := butlast (toks a) @ [last (toks a) @ [x]]\<rparr>"
    using Cons.prems by (simp add: feed_def grow_def)
  show ?case using Cons.IH[of "feed a x"] Cons.prems by (simp add: f)
qed

lemma rel_end:
  assumes r: "rel raw (length raw) s a"
  shows "agrees s a"
proof -
  let ?n = "length raw"
  let ?mem = "cmdLine s"
  have m: "mem_rel raw ?n ?mem (args s) (toks a) (opn a)" using r by (simp add: rel_def)
  have d: "drop ?n ?mem = [] @ [NUL]" using m by (simp add: mem_rel_def)
  have "cstr ?mem p = sofar ?mem p ?n" if "p \<in> set (args s)" for p
  proof -
    have p: "p \<le> ?n" using m that by (simp add: mem_rel_def)
    show ?thesis
    proof (cases "NUL \<in> set (seg ?mem p ?n)")
      case True
      then show ?thesis using cstr_closed[OF p] by simp
    next
      case False
      then show ?thesis using cstr_open[OF p False d] sofar_open[OF False] by simp
    qed
  qed
  then have "map (cstr ?mem) (args s) = toks a" using m by (simp add: mem_rel_def)
  then show ?thesis using r by (simp add: agrees_def rel_def)
qed

lemma rel_fin:
  assumes r: "rel raw i s a" and f: "fin a" and nul: "NUL \<notin> set raw"
  shows "agrees s (foldl feed a (drop i raw))"
proof -
  let ?mem = "cmdLine s"
  have m: "mem_rel raw i ?mem (args s) (toks a) (opn a)" using r by (simp add: rel_def)
  have o: "opn a" using r f by (simp add: rel_def)
  then have ne: "args s \<noteq> []" and lo: "NUL \<notin> set (seg ?mem (last (args s)) i)"
    using m by (simp_all add: mem_rel_def)
  obtain qs q where qs: "args s = qs @ [q]" using ne by (cases "args s" rule: rev_cases) auto
  have d: "drop i ?mem = drop i raw @ [NUL]" using m by (simp add: mem_rel_def)
  have nr: "NUL \<notin> set (drop i raw)" using nul by (auto dest: in_set_dropD)
  have q: "q \<le> i" using m qs by (simp add: mem_rel_def)
  have lq: "cstr ?mem q = seg ?mem q i @ drop i raw"
    using cstr_open[OF q _ d nr] lo qs by simp
  have cl: "cstr ?mem p = sofar ?mem p i" if "p \<in> set qs" for p
  proof -
    have "p \<le> i" "NUL \<in> set (seg ?mem p i)" using m that qs by (simp_all add: mem_rel_def)
    then show ?thesis by (rule cstr_closed)
  qed
  have t: "toks a = map (\<lambda>p. sofar ?mem p i) qs @ [seg ?mem q i]"
    using m qs lo sofar_open[of ?mem q i] by (simp add: mem_rel_def)
  have "map (cstr ?mem) (args s) = butlast (toks a) @ [last (toks a) @ drop i raw]"
    using cl lq by (simp add: qs t)
  moreover have "toks a \<noteq> []" using t by simp
  ultimately show ?thesis
    using r f by (simp add: feed_fin agrees_def rel_def)
qed

lemma scanLoop_refines:
  assumes nul: "NUL \<notin> set raw"
  shows "rel raw i s a \<Longrightarrow> n = length raw \<Longrightarrow> i \<le> n \<Longrightarrow>
     agrees (scanLoop i n s) (foldl feed a (drop i raw))"
proof (induction i n s arbitrary: a rule: scanLoop.induct)
  case (1 i n s)
  show ?case
  proof (cases "i < n \<and> \<not> shouldBeTerminated s")
    case True
    then have i: "i < length raw" using 1 by simp
    have c: "raw ! i \<noteq> NUL" using nul i by (metis nth_mem)
    have r': "rel raw (Suc i) (scanChar i s) (feed a (raw ! i))"
      using rel_step[OF "1.prems"(1) i _ c] True by simp
    have "agrees (scanLoop (i + 1) n (scanChar i s)) (foldl feed (feed a (raw ! i)) (drop (i + 1) raw))"
      using "1.IH"[OF True] r' "1.prems" i by simp
    moreover have "drop i raw = raw ! i # drop (i + 1) raw"
      using i by (simp add: Cons_nth_drop_Suc)
    ultimately show ?thesis using True by (subst scanLoop.simps) simp
  next
    case False
    then have sl: "scanLoop i n s = s" by (subst scanLoop.simps) auto
    show ?thesis
    proof (cases "shouldBeTerminated s")
      case True
      then have "fin a" using "1.prems" by (simp add: rel_def)
      then show ?thesis using rel_fin[OF "1.prems"(1) _ nul] sl by simp
    next
      case nt: False
      then have "i = length raw" using False "1.prems" by simp
      then show ?thesis using rel_end "1.prems" sl by simp
    qed
  qed
qed

lemma rel_init:
  "rel raw 0 \<lparr>cmdLine = raw @ [NUL], args = [], isBetweenFileNameQuotes = False,
       isStringInArg = False, isInWhiteSpace = True, zArg = 0, shouldBeTerminated = False\<rparr>
     tokenizer0"
  by (simp add: rel_def mem_rel_def tokenizer0_def)

lemma scanCommandLine_refines:
  assumes "NUL \<notin> set raw"
  shows "agrees (scanCommandLine raw) (foldl feed tokenizer0 raw)"
proof -
  have tw: "takeWhile (\<lambda>c. c \<noteq> NUL) raw = raw" using assms by (induction raw) auto
  show ?thesis
    using scanLoop_refines[OF assms rel_init, of "length raw"]
    by (simp add: scanCommandLine_def lstrlen_def tw)
qed

lemma parseCommandLine_tokens:
  assumes "NUL \<notin> set raw"
  shows "parseCommandLine (Some raw) pv = toks (foldl feed tokenizer0 raw)"
  using scanCommandLine_refines[OF assms] by (simp add: parseCommandLine_def agrees_def)


section \<open>The argument vector\<close>

subsection \<open>The loops, by what they leave behind\<close>

lemma convert_loop_map:
  "convertParamsToNotepadStyle_loop (length pre) (pre @ rest) = pre @ map notepadStyle rest"
proof (induction rest arbitrary: pre)
  case Nil
  then show ?case by (simp add: convertParamsToNotepadStyle_loop.simps)
next
  case (Cons t rest)
  have "convertParamsToNotepadStyle_loop (length pre) (pre @ t # rest)
      = convertParamsToNotepadStyle_loop (length (pre @ [notepadStyle t])) ((pre @ [notepadStyle t]) @ rest)"
    by (subst convertParamsToNotepadStyle_loop.simps) (simp add: notepadStyle_def)
  then show ?case using Cons[of "pre @ [notepadStyle t]"] by simp
qed

lemma convert_map: "convertParamsToNotepadStyle params = map notepadStyle params"
  using convert_loop_map[of "[]" params] by (simp add: convertParamsToNotepadStyle_def)

lemma stripIgnoredParams_loop_spec:
  "stripIgnoredParams_loop (length pre) (pre @ rest) = pre @ strip_spec rest"
proof (induction rest arbitrary: pre rule: strip_spec.induct)
  case 1
  then show ?case by (simp add: stripIgnoredParams_loop.simps)
next
  case (2 p)
  then show ?case
    by (simp add: stripIgnoredParams_loop.simps[of "length pre"]
        stripIgnoredParams_loop.simps[of "Suc (length pre)"] erase_def)
next
  case (3 p q ps)
  show ?case
  proof (cases "p = ''-z''")
    case True
    have "stripIgnoredParams_loop (length pre) (pre @ p # q # ps)
        = stripIgnoredParams_loop (length pre) (pre @ ps)"
      using True by (subst stripIgnoredParams_loop.simps) (simp add: erase_def)
    then show ?thesis using 3(1)[OF True, of pre] True by simp
  next
    case False
    have "stripIgnoredParams_loop (length pre) (pre @ p # q # ps)
        = stripIgnoredParams_loop (length (pre @ [p])) ((pre @ [p]) @ q # ps)"
      using False by (subst stripIgnoredParams_loop.simps) simp
    then show ?thesis using 3(2)[OF False, of "pre @ [p]"] False by simp
  qed
qed

lemma isInList_loop_miss:
  "token2Find \<notin> set rest \<Longrightarrow>
   isInList_loop token2Find e (length pre) (pre @ rest) = (False, pre @ rest)"
proof (induction rest arbitrary: pre)
  case Nil
  then show ?case by (simp add: isInList_loop.simps)
next
  case (Cons t rest)
  have "isInList_loop token2Find e (length pre) (pre @ t # rest)
      = isInList_loop token2Find e (length (pre @ [t])) ((pre @ [t]) @ rest)"
    using Cons.prems by (subst isInList_loop.simps) auto
  then show ?case using Cons.IH[of "pre @ [t]"] Cons.prems by simp
qed

lemma isInList_loop_hit:
  "token2Find \<notin> set mid \<Longrightarrow>
   isInList_loop token2Find True (length pre) (pre @ mid @ token2Find # post) = (True, pre @ mid @ post)"
proof (induction mid arbitrary: pre)
  case Nil
  then show ?case by (subst isInList_loop.simps) (simp add: erase_def)
next
  case (Cons t mid)
  have "isInList_loop token2Find True (length pre) (pre @ (t # mid) @ token2Find # post)
      = isInList_loop token2Find True (length (pre @ [t])) ((pre @ [t]) @ mid @ token2Find # post)"
    using Cons.prems by (subst isInList_loop.simps) auto
  then show ?case using Cons.IH[of "pre @ [t]"] Cons.prems by simp
qed

lemma getParamVal_loop_miss:
  "\<forall>t \<in> set rest. \<not> isParam c t \<Longrightarrow>
   getParamVal_loop c (length pre) (length (pre @ rest)) (pre @ rest) = (False, [], pre @ rest)"
proof (induction rest arbitrary: pre)
  case Nil
  then show ?case by (simp add: getParamVal_loop.simps)
next
  case (Cons t rest)
  have "getParamVal_loop c (length pre) (length (pre @ t # rest)) (pre @ t # rest)
      = getParamVal_loop c (length (pre @ [t])) (length ((pre @ [t]) @ rest)) ((pre @ [t]) @ rest)"
    using Cons.prems by (subst getParamVal_loop.simps) auto
  then show ?case using Cons.IH[of "pre @ [t]"] Cons.prems by simp
qed

lemma getParamVal_loop_hit:
  "\<forall>t \<in> set mid. \<not> isParam c t \<Longrightarrow> isParam c m \<Longrightarrow>
   getParamVal_loop c (length pre) (length (pre @ mid @ m # post)) (pre @ mid @ m # post)
     = (True, drop 2 m, pre @ mid @ post)"
proof (induction mid arbitrary: pre)
  case Nil
  then show ?case by (subst getParamVal_loop.simps) (simp add: erase_def)
next
  case (Cons t mid)
  have "getParamVal_loop c (length pre) (length (pre @ (t # mid) @ m # post)) (pre @ (t # mid) @ m # post)
      = getParamVal_loop c (length (pre @ [t])) (length ((pre @ [t]) @ mid @ m # post)) ((pre @ [t]) @ mid @ m # post)"
    using Cons.prems by (subst getParamVal_loop.simps) auto
  then show ?case using Cons.IH[of "pre @ [t]"] Cons.prems by simp
qed

lemma getParamValFromString_loop_miss:
  "\<forall>t \<in> set rest. \<not> prefix str t \<Longrightarrow>
   getParamValFromString_loop str (length pre) (length (pre @ rest)) (pre @ rest) = (False, [], pre @ rest)"
proof (induction rest arbitrary: pre)
  case Nil
  then show ?case by (simp add: getParamValFromString_loop.simps)
next
  case (Cons t rest)
  have "getParamValFromString_loop str (length pre) (length (pre @ t # rest)) (pre @ t # rest)
      = getParamValFromString_loop str (length (pre @ [t])) (length ((pre @ [t]) @ rest)) ((pre @ [t]) @ rest)"
    using Cons.prems by (subst getParamValFromString_loop.simps) auto
  then show ?case using Cons.IH[of "pre @ [t]"] Cons.prems by simp
qed

lemma getParamValFromString_loop_hit:
  "\<forall>t \<in> set mid. \<not> prefix str t \<Longrightarrow> prefix str m \<Longrightarrow>
   getParamValFromString_loop str (length pre) (length (pre @ mid @ m # post)) (pre @ mid @ m # post)
     = (True, drop (length str) m, pre @ mid @ post)"
proof (induction mid arbitrary: pre)
  case Nil
  then show ?case by (subst getParamValFromString_loop.simps) (simp add: erase_def)
next
  case (Cons t mid)
  have "getParamValFromString_loop str (length pre) (length (pre @ (t # mid) @ m # post)) (pre @ (t # mid) @ m # post)
      = getParamValFromString_loop str (length (pre @ [t])) (length ((pre @ [t]) @ mid @ m # post)) ((pre @ [t]) @ mid @ m # post)"
    using Cons.prems by (subst getParamValFromString_loop.simps) auto
  then show ?case using Cons.IH[of "pre @ [t]"] Cons.prems by simp
qed


lemma isInList_miss:
  "token2Find \<notin> set params \<Longrightarrow> isInList token2Find params e = (False, params)"
  using isInList_loop_miss[of token2Find params e "[]"] by (simp add: isInList_def)

lemma isInList_hit:
  "token2Find \<notin> set pre \<Longrightarrow>
   isInList token2Find (pre @ token2Find # post) True = (True, pre @ post)"
  using isInList_loop_hit[of token2Find pre "[]" post] by (simp add: isInList_def)

lemma getParamVal_miss:
  "\<forall>t \<in> set params. \<not> isParam c t \<Longrightarrow> getParamVal c params = (False, [], params)"
  using getParamVal_loop_miss[of params c "[]"] by (simp add: getParamVal_def)

lemma getParamVal_hit:
  "\<forall>t \<in> set pre. \<not> isParam c t \<Longrightarrow> isParam c m \<Longrightarrow>
   getParamVal c (pre @ m # post) = (True, drop 2 m, pre @ post)"
  using getParamVal_loop_hit[of pre c m "[]" post] by (simp add: getParamVal_def)

lemma getParamValFromString_miss:
  "\<forall>t \<in> set params. \<not> prefix str t \<Longrightarrow>
   getParamValFromString str params = (False, [], params)"
  using getParamValFromString_loop_miss[of params str "[]"]
  by (simp add: getParamValFromString_def)

lemma getParamValFromString_hit:
  "\<forall>t \<in> set pre. \<not> prefix str t \<Longrightarrow> prefix str m \<Longrightarrow>
   getParamValFromString str (pre @ m # post) = (True, drop (length str) m, pre @ post)"
  using getParamValFromString_loop_hit[of pre str m "[]" post]
  by (simp add: getParamValFromString_def)

lemma isParam_iff:
  "isParam c t \<longleftrightarrow> 2 \<le> length t \<and> t ! 0 = CHR ''-'' \<and> t ! 1 = c"
  by (cases t; cases "tl t") (auto simp: isParam_def)

subsection \<open>The claims about the argument vector\<close>

text \<open>
  C2 (the code falls short of the claim). The typing speed is looked up with the prefix
  \<open>-qSpeed\<close> and converted by \<open>std::stoi\<close>. A value that does not start with a number makes
  \<open>std::stoi\<close> throw \<open>std::invalid_argument\<close>, and nothing in
  \<open>getGhostTypingSpeedFromParam\<close> catches it: for the argument \<open>-qSpeedfast\<close> the call ends
  with the exception, not with the result \<open>-1\<close> for an absent value. The same happens for
  \<open>-qSpeed\<close> alone and for \<open>-qSpeed=2\<close>.
\<close>

theorem getGhostTypingSpeedFromParam_throws:
  "getGhostTypingSpeedFromParam [''-qSpeedfast''] = (Inl invalid_argument, [])"
  by (simp add: getGhostTypingSpeedFromParam_def getParamValFromString_def
      getParamValFromString_loop.simps erase_def stoi_def isspace_def isdigit_def blank_def)

text \<open>
  When \<open>std::stoi\<close> does not throw, the result is \<open>-1\<close> or one of 1, 2, 3.
\<close>

lemma getGhostTypingSpeedFromParam_range:
  "fst (getGhostTypingSpeedFromParam params) = Inr v \<Longrightarrow> v = - 1 \<or> v = 1 \<or> v = 2 \<or> v = 3"
  by (auto simp: getGhostTypingSpeedFromParam_def split: prod.splits bool.splits sum.splits if_splits)

text \<open>
  C6. Each of the four extraction operations takes the earliest matching token: when no
  token before \<open>m\<close> matches and \<open>m\<close> matches, the call removes exactly \<open>m\<close>, keeps the
  other tokens in their order and returns what \<open>m\<close> carries; the vector it returns is the
  one the next call works on. In particular, where \<open>-lcpp\<close> is the only token that matches
  the letter \<open>l\<close>, the first call yields \<open>cpp\<close> and the second call on the vector left
  behind finds nothing.
\<close>

theorem extraction_takes_first_match:
  "(token2Find \<notin> set pre \<longrightarrow>
      isInList token2Find (pre @ token2Find # post) True = (True, pre @ post)) \<and>
   ((\<forall>t \<in> set pre. \<not> isParam c t) \<and> isParam c m \<longrightarrow>
      getParamVal c (pre @ m # post) = (True, drop 2 m, pre @ post) \<and>
      getNumberFromParam ttoi c (pre @ m # post) = (ttoi (drop 2 m), True, pre @ post)) \<and>
   ((\<forall>t \<in> set pre. \<not> prefix str t) \<and> prefix str m \<longrightarrow>
      getParamValFromString str (pre @ m # post) = (True, drop (length str) m, pre @ post)) \<and>
   ((\<forall>t \<in> set (pre @ post). \<not> isParam (CHR ''l'') t) \<longrightarrow>
      getParamVal (CHR ''l'') (pre @ ''-lcpp'' # post) = (True, ''cpp'', pre @ post) \<and>
      getParamVal (CHR ''l'') (pre @ post) = (False, [], pre @ post))"
proof -
  have l: "isParam (CHR ''l'') ''-lcpp''" by (simp add: isParam_def)
  show ?thesis
    using getParamVal_hit[of pre "CHR ''l''" "''-lcpp''" post] l
    by (auto simp: isInList_hit getParamVal_hit getParamVal_miss getParamValFromString_hit
        getNumberFromParam_def)
qed

theorem extraction_takes_first_match_witness:
  "isInList ''-ro'' [''a.txt'', ''-ro'', ''b.txt'', ''-ro''] True
      = (True, [''a.txt'', ''b.txt'', ''-ro'']) \<and>
   getParamVal (CHR ''n'') [''a.txt'', ''-n12'', ''-n7''] = (True, ''12'', [''a.txt'', ''-n7'']) \<and>
   getNumberFromParam (\<lambda>str. int (length str)) (CHR ''n'') [''a.txt'', ''-n12'', ''-n7'']
      = (2, True, [''a.txt'', ''-n7'']) \<and>
   getParamValFromString ''-udl='' [''a.txt'', ''-udl=x y'', ''-udl=z'']
      = (True, ''x y'', [''a.txt'', ''-udl=z'']) \<and>
   getParamVal (CHR ''l'') [''a.txt'', ''-lcpp'', ''b.txt''] = (True, ''cpp'', [''a.txt'', ''b.txt'']) \<and>
   getParamVal (CHR ''l'') [''a.txt'', ''b.txt''] = (False, [], [''a.txt'', ''b.txt''])"
proof -
  have 1: "isInList ''-ro'' [''a.txt'', ''-ro'', ''b.txt'', ''-ro''] True
      = (True, [''a.txt'', ''b.txt'', ''-ro''])"
    using extraction_takes_first_match[where ?token2Find = "''-ro''" and ?pre = "[''a.txt'']"
        and ?post = "[''b.txt'', ''-ro'']"]
    by simp
  have 2: "getParamVal (CHR ''n'') [''a.txt'', ''-n12'', ''-n7''] = (True, ''12'', [''a.txt'', ''-n7'']) \<and>
     getNumberFromParam (\<lambda>str. int (length str)) (CHR ''n'') [''a.txt'', ''-n12'', ''-n7'']
      = (2, True, [''a.txt'', ''-n7''])"
    using extraction_takes_first_match[where ?pre = "[''a.txt'']" and ?c = "CHR ''n''"
        and ?m = "''-n12''" and ?post = "[''-n7'']" and ?ttoi = "\<lambda>str. int (length str)"]
    by (simp add: isParam_def)
  have 3: "getParamValFromString ''-udl='' [''a.txt'', ''-udl=x y'', ''-udl=z'']
      = (True, ''x y'', [''a.txt'', ''-udl=z''])"
    using extraction_takes_first_match[where ?pre = "[''a.txt'']" and ?post = "[''-udl=z'']"
        and ?m = "''-udl=x y''" and ?str = "''-udl=''"]
    by simp
  have 4: "getParamVal (CHR ''l'') [''a.txt'', ''-lcpp'', ''b.txt''] = (True, ''cpp'', [''a.txt'', ''b.txt'']) \<and>
     getParamVal (CHR ''l'') [''a.txt'', ''b.txt''] = (False, [], [''a.txt'', ''b.txt''])"
    using extraction_takes_first_match[where ?pre = "[''a.txt'']" and ?post = "[''b.txt'']"]
    by (simp add: isParam_def)
  show ?thesis using 1 2 3 4 by simp
qed

text \<open>
  C7. \<open>stripIgnoredParams\<close> computes \<open>strip_spec\<close>: every token equal to \<open>-z\<close> goes
  together with the one token after it (alone when it is the last token), the scan goes on
  with the token behind them, and the tokens that stay keep their order.
\<close>

theorem stripIgnoredParams_refines_spec:
  "stripIgnoredParams params = strip_spec params"
  using stripIgnoredParams_loop_spec[of "[]" params] by (simp add: stripIgnoredParams_def)

theorem stripIgnoredParams_refines_spec_witness:
  "stripIgnoredParams [''a'', ''-z'', ''b'', ''c'', ''-z'', ''-z'', ''d'', ''-z'']
     = [''a'', ''c'', ''d'']"
  using stripIgnoredParams_refines_spec[of "[''a'', ''-z'', ''b'', ''c'', ''-z'', ''-z'', ''d'', ''-z'']"]
  by simp

text \<open>
  C8. \<open>convertParamsToNotepadStyle\<close> replaces a token \<open>/p\<close> or \<open>/P\<close> by \<open>-quickPrint\<close>
  where it stands, at the first position as at any other; the vector keeps its length, and a
  token that is neither \<open>/p\<close> nor \<open>/P\<close> stays as it is at its position.
\<close>

theorem convertParamsToNotepadStyle_rewrite:
  "length (convertParamsToNotepadStyle params) = length params \<and>
   (\<forall>i < length params.
      (params ! i = ''/p'' \<or> params ! i = ''/P''
         \<longrightarrow> convertParamsToNotepadStyle params ! i = ''-quickPrint'') \<and>
      (params ! i \<noteq> ''/p'' \<and> params ! i \<noteq> ''/P''
         \<longrightarrow> convertParamsToNotepadStyle params ! i = params ! i))"
  by (simp add: convert_map notepadStyle_def)

theorem convertParamsToNotepadStyle_rewrite_witness:
  "convertParamsToNotepadStyle [''/p'', ''report.txt''] = [''-quickPrint'', ''report.txt'']"
proof -
  let ?ps = "[''/p'', ''report.txt'']"
  from convertParamsToNotepadStyle_rewrite[of ?ps]
  have len: "length (convertParamsToNotepadStyle ?ps) = 2"
    and a: "convertParamsToNotepadStyle ?ps ! 0 = ''-quickPrint''"
    and b: "convertParamsToNotepadStyle ?ps ! 1 = ''report.txt''"
    by simp_all
  show ?thesis
  proof (rule nth_equalityI)
    show "length (convertParamsToNotepadStyle ?ps) = length [''-quickPrint'', ''report.txt'']"
      using len by simp
  next
    fix i assume "i < length (convertParamsToNotepadStyle ?ps)"
    then have "i = 0 \<or> i = 1" using len by auto
    then show "convertParamsToNotepadStyle ?ps ! i = [''-quickPrint'', ''report.txt''] ! i"
      using a b by auto
  qed
qed

text \<open>
  C9, as stated, fails: a token that is exactly \<open>-l\<close> is not taken when an earlier token
  matches the letter as well. Here \<open>-lcpp\<close> comes first, is removed and gives the value.
\<close>

theorem getParamVal_bare_flag_counterexample:
  "getParamVal (CHR ''l'') [''-lcpp'', ''-l''] = (True, ''cpp'', [''-l''])"
  by (simp add: getParamVal_def getParamVal_loop.simps isParam_def erase_def)

text \<open>
  C9, amended. When the earliest token that matches the letter is exactly the dash and the
  letter, \<open>getParamVal\<close> returns \<open>true\<close> with the empty string as value and removes that
  token; when no token matches it returns \<open>false\<close> (with the empty string) and leaves the
  vector alone. The returned flag tells the two apart.
\<close>

theorem getParamVal_bare_flag:
  "((\<forall>t \<in> set pre. \<not> isParam c t) \<longrightarrow>
      getParamVal c (pre @ [CHR ''-'', c] # post) = (True, [], pre @ post)) \<and>
   ((\<forall>t \<in> set params. \<not> isParam c t) \<longrightarrow>
      getParamVal c params = (False, [], params))"
proof -
  have "isParam c [CHR ''-'', c]" by (simp add: isParam_def)
  then show ?thesis
    using getParamVal_hit[of pre c "[CHR ''-'', c]" post] by (auto simp: getParamVal_miss)
qed

theorem getParamVal_bare_flag_witness:
  "getParamVal (CHR ''l'') [''a.txt'', ''-l'', ''-lcpp''] = (True, [], [''a.txt'', ''-lcpp'']) \<and>
   getParamVal (CHR ''l'') [''a.txt'', ''-n3''] = (False, [], [''a.txt'', ''-n3''])"
  using getParamVal_bare_flag[of "[''a.txt'']" "CHR ''l''" "[''-lcpp'']" "[''a.txt'', ''-n3'']"]
  by (simp add: isParam_def)

section \<open>Properties of the scanner\<close>

subsection \<open>General facts\<close>

lemma feed_fin_step: "fin a \<Longrightarrow> fin (feed a c)"
  by (simp add: feed_def)

lemma run_fin: "fin a \<Longrightarrow> fin (foldl feed a xs)"
  by (induction xs arbitrary: a) (simp_all add: feed_fin_step)

lemma not_fin_before: "\<not> fin (foldl feed (feed a c) xs) \<Longrightarrow> \<not> fin (feed a c) \<and> \<not> fin a"
  using run_fin[of "feed a c" xs] feed_fin_step[of a c] by blast

lemma peq_feed: "\<not> fin a \<Longrightarrow> peq (feed a c) = (c = CHR ''='')"
  by (auto simp: feed_def special_chars)

lemma peq_run:
  assumes "\<not> fin (foldl feed tokenizer0 xs)"
  shows "peq (foldl feed tokenizer0 xs) \<longleftrightarrow> xs \<noteq> [] \<and> last xs = CHR ''=''"
proof (cases xs rule: rev_cases)
  case Nil
  then show ?thesis by (simp add: tokenizer0_def)
next
  case (snoc ys c)
  have "\<not> fin (foldl feed tokenizer0 ys)"
    using assms snoc feed_fin_step[of "foldl feed tokenizer0 ys" c] by auto
  then show ?thesis using snoc by (simp add: peq_feed)
qed

lemma wf_feed: "wf_tok a \<Longrightarrow> wf_tok (feed a c)"
  by (auto simp: wf_tok_def feed_def grow_def)

lemma wf_run: "wf_tok a \<Longrightarrow> wf_tok (foldl feed a xs)"
  by (induction xs arbitrary: a) (simp_all add: wf_feed)

lemma wf_tokenizer0: "wf_tok tokenizer0"
  by (simp add: wf_tok_def tokenizer0_def)

subsection \<open>Quote characters in the arguments\<close>

lemma eqQuote_snoc:
  "eqQuote (xs @ [c]) \<longleftrightarrow> eqQuote xs \<or> (xs \<noteq> [] \<and> last xs = CHR ''='' \<and> c = dquote)"
  by (induction xs rule: eqQuote.induct) auto

lemma butlast_grow: "butlast (grow ts True c) = butlast ts"
  by (simp add: grow_def)

lemma eqQuote_grows: "eqQuote t \<Longrightarrow> eqQuote (t @ [c])"
  by (simp add: eqQuote_snoc)

lemma quoted_by_eq_other: "c \<noteq> dquote \<Longrightarrow> quoted_by_eq t \<Longrightarrow> quoted_by_eq (t @ [c])"
  by (auto simp: quoted_by_eq_def eqQuote_snoc)

lemma quoted_by_eq_opening: "t \<noteq> [] \<Longrightarrow> last t = CHR ''='' \<Longrightarrow> eqQuote (t @ [dquote])"
  by (simp add: eqQuote_snoc)

lemma quote_inv_feed:
  assumes wf: "wf_tok a" and inv: "quote_inv a"
  shows "quote_inv (feed a c)"
proof (cases "fin a")
  case True
  then have "feed a c = a\<lparr>toks := grow (toks a) True c\<rparr>" by (simp add: feed_def)
  then show ?thesis using True inv by (simp add: quote_inv_def butlast_grow)
next
  case nf: False
  note sc = special_chars
  show ?thesis
  proof (cases "opn a")
    case True
    then obtain T t where T: "toks a = T @ [t]"
      using wf by (cases "toks a" rule: rev_cases) (auto simp: wf_tok_def)
    have i: "\<forall>x \<in> set T. quoted_by_eq x" "quoted_by_eq t" "sia a \<longrightarrow> eqQuote t"
      "peq a \<longrightarrow> t \<noteq> [] \<and> last t = CHR ''=''" "\<not> (iws a \<and> \<not> btw a \<and> \<not> sia a)"
      using inv wf nf True T by (simp_all add: quote_inv_def wf_tok_def)
    show ?thesis
    proof (cases "c = dquote")
      case q: True
      show ?thesis
        using nf True T i q
        by (auto simp: quote_inv_def feed_def grow_def eqQuote_snoc quoted_by_eq_def)
    next
      case False
      then have "quoted_by_eq (t @ [c])" using i(2) by (rule quoted_by_eq_other)
      then show ?thesis
        using nf True T i False
        by (auto simp: quote_inv_def feed_def grow_def eqQuote_snoc quoted_by_eq_def)
    qed
  next
    case False
    have g: "\<And>ts x. grow ts False x = ts" by (simp add: grow_def)
    have i: "\<forall>x \<in> set (toks a). quoted_by_eq x" using inv nf by (simp add: quote_inv_def)
    have e: "quoted_by_eq []" "c \<noteq> dquote \<Longrightarrow> quoted_by_eq [c]"
      by (simp_all add: quoted_by_eq_def)
    show ?thesis
      using nf False i e
      by (auto simp: quote_inv_def feed_def g butlast_append special_chars)
  qed
qed

lemma quote_inv_run: "quote_inv (foldl feed tokenizer0 xs)"
proof (induction xs rule: rev_induct)
  case Nil
  then show ?case by (simp add: quote_inv_def tokenizer0_def)
next
  case (snoc c xs)
  then show ?case using quote_inv_feed[OF wf_run[OF wf_tokenizer0]] by simp
qed

lemma scanCommandLine_cstring:
  "scanCommandLine raw = scanCommandLine (takeWhile (\<lambda>c. c \<noteq> NUL) raw)"
  by (simp add: scanCommandLine_def lstrlen_def)

lemma takeWhile_no_NUL: "NUL \<notin> set (takeWhile (\<lambda>c. c \<noteq> NUL) raw)"
  by (induction raw) auto

text \<open>
  C1, as stated, fails in two ways: the quotes around a string that follows \<open>=\<close> stay in
  the argument, and so do the quotes in a rest that is kept as it is after \<open>-z\<close>.
\<close>

theorem quotes_elided_counterexample:
  \<open>parseCommandLine (Some ''-a="b c"'') [] = [''-a="b c"''] \<and>
   parseCommandLine (Some ''-z "n" f "g"'') [] = [''-z'', ''n'', ''f "g"'']\<close>
  by (simp add: parseCommandLine_def scanCommandLine_def lstrlen_def cstr_def scanChar_def
      scanLoop.simps NUL_def dquote_def tab_def blank_def)

text \<open>
  C1, amended. For every command line, an argument contains a quote character only if it
  contains \<open>=\<close> directly followed by a quote (it holds a string after \<open>=\<close>, whose quotes
  stay in the text), or if it is the last argument of a scan that was stopped and keeps the
  rest of the line as it is. The quotes that open and close a quoted file name are replaced
  by terminators and are in no argument.
\<close>

theorem quotes_only_after_eq:
  "\<forall>t \<in> set (if shouldBeTerminated (scanCommandLine raw)
                 then butlast (parseCommandLine (Some raw) paramVector)
                 else parseCommandLine (Some raw) paramVector).
     dquote \<in> set t \<longrightarrow> eqQuote t"
proof -
  let ?cs = "takeWhile (\<lambda>c. c \<noteq> NUL) raw"
  let ?a = "foldl feed tokenizer0 ?cs"
  have ag: "agrees (scanCommandLine raw) ?a"
    using scanCommandLine_refines[OF takeWhile_no_NUL, of raw] scanCommandLine_cstring[of raw]
    by simp
  then have "parseCommandLine (Some raw) paramVector = toks ?a"
    "shouldBeTerminated (scanCommandLine raw) = fin ?a"
    by (simp_all add: parseCommandLine_def agrees_def)
  then show ?thesis
    using quote_inv_run[of ?cs] by (auto simp: quote_inv_def quoted_by_eq_def)
qed

theorem quotes_only_after_eq_witness:
  \<open>parseCommandLine (Some ''-s="a b" "c d" e'') [] = [''-s="a b"'', ''c d'', ''e''] \<and>
   eqQuote (parseCommandLine (Some ''-s="a b" "c d" e'') [] ! 0) \<and>
   parseCommandLine (Some ''-s="a" -z "n" f "g"'') [] = [''-s="a"'', ''-z'', ''n'', ''f "g"''] \<and>
   eqQuote (butlast (parseCommandLine (Some ''-s="a" -z "n" f "g"'') []) ! 0)\<close>
proof -
  have 1: \<open>parseCommandLine (Some ''-s="a b" "c d" e'') [] = [''-s="a b"'', ''c d'', ''e'']\<close>
    \<open>parseCommandLine (Some ''-s="a" -z "n" f "g"'') [] = [''-s="a"'', ''-z'', ''n'', ''f "g"'']\<close>
    by (simp_all add: parseCommandLine_def scanCommandLine_def lstrlen_def cstr_def scanChar_def
      scanLoop.simps NUL_def dquote_def tab_def blank_def)
  have 2: \<open>\<not> shouldBeTerminated (scanCommandLine ''-s="a b" "c d" e'')\<close>
    \<open>shouldBeTerminated (scanCommandLine ''-s="a" -z "n" f "g"'')\<close>
    by (simp_all add: scanCommandLine_def lstrlen_def cstr_def scanChar_def
      scanLoop.simps NUL_def dquote_def tab_def blank_def)
  have \<open>\<forall>t \<in> set (parseCommandLine (Some ''-s="a b" "c d" e'') []). dquote \<in> set t \<longrightarrow> eqQuote t\<close>
    using quotes_only_after_eq[of \<open>''-s="a b" "c d" e''\<close> "[]"] 2(1) by (simp only: if_False)
  then have a: \<open>eqQuote (parseCommandLine (Some ''-s="a b" "c d" e'') [] ! 0)\<close>
    by (simp add: 1 dquote_def)
  have \<open>\<forall>t \<in> set (butlast (parseCommandLine (Some ''-s="a" -z "n" f "g"'') [])).
      dquote \<in> set t \<longrightarrow> eqQuote t\<close>
    using quotes_only_after_eq[of \<open>''-s="a" -z "n" f "g"''\<close> "[]"] 2(2) by (simp only: if_True)
  then have b: \<open>eqQuote (butlast (parseCommandLine (Some ''-s="a" -z "n" f "g"'') []) ! 0)\<close>
    by (simp add: 1 dquote_def)
  show ?thesis using 1 a b by simp
qed

subsection \<open>Command lines without quotes\<close>

lemma split_run:
  "dquote \<notin> set xs \<Longrightarrow> \<not> btw a \<Longrightarrow> \<not> sia a \<Longrightarrow> opn a = (\<not> iws a) \<Longrightarrow>
   (opn a \<longrightarrow> toks a \<noteq> []) \<Longrightarrow> \<not> fin (foldl feed a xs) \<Longrightarrow>
   toks (foldl feed a xs) =
     (if opn a
      then butlast (toks a) @
           (last (toks a) @ takeWhile (\<lambda>x. \<not> isWhite x) xs) # split_ws (dropWhile (\<lambda>x. \<not> isWhite x) xs)
      else toks a @ split_ws xs)"
proof (induction xs arbitrary: a)
  case Nil
  then show ?case by simp
next
  case (Cons x xs)
  have nf: "\<not> fin (feed a x)" "\<not> fin a" using not_fin_before[OF Cons.prems(6)[simplified]] by simp_all
  have xq: "x \<noteq> dquote" "dquote \<notin> set xs" using Cons.prems(1) by auto
  show ?case
  proof (cases "isWhite x")
    case True
    then have w: "x = tab \<or> x = blank" by (simp add: isWhite_def)
    have f: "feed a x = a\<lparr>opn := False, iws := True,
        zc := (if toks a \<noteq> [] \<and> last (toks a) = ''-z'' then zc a + 1 else zc a), peq := False\<rparr>"
      using w xq nf Cons.prems by (simp add: feed_def)
    have "toks (foldl feed (feed a x) xs) = toks a @ split_ws xs"
      using Cons.IH[of "feed a x"] xq Cons.prems by (simp add: f)
    then show ?thesis using True Cons.prems(5) by simp
  next
    case False
    then have nw: "x \<noteq> tab" "x \<noteq> blank" by (simp_all add: isWhite_def)
    show ?thesis
    proof (cases "opn a")
      case True
      then have f: "feed a x = a\<lparr>toks := butlast (toks a) @ [last (toks a) @ [x]],
          peq := (x = CHR ''='')\<rparr>"
        using nw xq nf Cons.prems by (simp add: feed_def grow_def)
      have "toks (foldl feed (feed a x) xs) =
          butlast (toks a) @ ((last (toks a) @ [x]) @ takeWhile (\<lambda>x. \<not> isWhite x) xs)
            # split_ws (dropWhile (\<lambda>x. \<not> isWhite x) xs)"
        using Cons.IH[of "feed a x"] xq Cons.prems True by (simp add: f)
      then show ?thesis using True False by simp
    next
      case no: False
      then have f: "feed a x = a\<lparr>toks := toks a @ [[x]], opn := True,
          fin := (if zc a = 2 then True else fin a), iws := False, peq := (x = CHR ''='')\<rparr>"
        using nw xq nf Cons.prems by (simp add: feed_def)
      have "toks (foldl feed (feed a x) xs) =
          toks a @ ([x] @ takeWhile (\<lambda>x. \<not> isWhite x) xs)
            # split_ws (dropWhile (\<lambda>x. \<not> isWhite x) xs)"
        using Cons.IH[of "feed a x"] xq Cons.prems(2,3,6) by (simp add: f)
      then show ?thesis using no False by simp
    qed
  qed
qed

lemma no_dash_z_run:
  "dquote \<notin> set xs \<Longrightarrow> \<not> btw a \<Longrightarrow> \<not> sia a \<Longrightarrow> \<not> fin a \<Longrightarrow> opn a = (\<not> iws a) \<Longrightarrow>
   (opn a \<longrightarrow> toks a \<noteq> []) \<Longrightarrow> (\<not> opn a \<longrightarrow> toks a \<noteq> [] \<longrightarrow> last (toks a) \<noteq> ''-z'') \<Longrightarrow>
   zc a = 0 \<Longrightarrow>
   ''-z'' \<notin> set (if opn a
      then (last (toks a) @ takeWhile (\<lambda>x. \<not> isWhite x) xs) # split_ws (dropWhile (\<lambda>x. \<not> isWhite x) xs)
      else split_ws xs) \<Longrightarrow>
   \<not> fin (foldl feed a xs)"
proof (induction xs arbitrary: a)
  case Nil
  then show ?case by simp
next
  case (Cons x xs)
  have xq: "x \<noteq> dquote" "dquote \<notin> set xs" using Cons.prems(1) by auto
  show ?case
  proof (cases "isWhite x")
    case True
    then have w: "x = tab \<or> x = blank" by (simp add: isWhite_def)
    have nz: "toks a \<noteq> [] \<longrightarrow> last (toks a) \<noteq> ''-z''"
      using Cons.prems(7,9) True by (cases "opn a") auto
    have f: "feed a x = a\<lparr>opn := False, iws := True, zc := zc a, peq := False\<rparr>"
      using w xq nz Cons.prems(2,3,4) by (auto simp: feed_def)
    have "''-z'' \<notin> set (split_ws xs)" using Cons.prems(9) True by (cases "opn a") auto
    then have "\<not> fin (foldl feed (feed a x) xs)"
      using Cons.IH[of "feed a x"] xq(2) Cons.prems(2,3,4,8) nz by (simp add: f)
    then show ?thesis by simp
  next
    case False
    then have nw: "x \<noteq> tab" "x \<noteq> blank" by (simp_all add: isWhite_def)
    show ?thesis
    proof (cases "opn a")
      case True
      then have f: "feed a x = a\<lparr>toks := butlast (toks a) @ [last (toks a) @ [x]],
          peq := (x = CHR ''='')\<rparr>"
        using nw xq Cons.prems by (simp add: feed_def grow_def)
      have "\<not> fin (foldl feed (feed a x) xs)"
        using Cons.IH[of "feed a x"] xq(2) Cons.prems True False by (simp add: f)
      then show ?thesis by simp
    next
      case no: False
      then have f: "feed a x = a\<lparr>toks := toks a @ [[x]], opn := True,
          fin := False, iws := False, peq := (x = CHR ''='')\<rparr>"
        using nw xq Cons.prems by (simp add: feed_def)
      have "\<not> fin (foldl feed (feed a x) xs)"
        using Cons.IH[of "feed a x"] xq(2) Cons.prems(2,3,8,9) no False by (simp add: f)
      then show ?thesis by simp
    qed
  qed
qed

lemma no_quotes_run:
  assumes "dquote \<notin> set raw" and "\<not> fin (foldl feed tokenizer0 raw)"
  shows "toks (foldl feed tokenizer0 raw) = split_ws raw"
  using split_run[OF assms(1), of tokenizer0] assms(2) by (simp add: tokenizer0_def)

text \<open>
  Where no word of a line without quotes is \<open>-z\<close>, the counter stays 0 and the arguments
  are the words between the runs of blanks and tabs.
\<close>

lemma split_without_z:
  assumes "NUL \<notin> set raw" and "dquote \<notin> set raw" and "''-z'' \<notin> set (split_ws raw)"
  shows "parseCommandLine (Some raw) paramVector = split_ws raw"
proof -
  have "\<not> fin (foldl feed tokenizer0 raw)"
    using no_dash_z_run[OF assms(2), of tokenizer0] assms(3) by (simp add: tokenizer0_def)
  then show ?thesis
    using no_quotes_run[OF assms(2)] parseCommandLine_tokens[OF assms(1)] by simp
qed

text \<open>
  C4 (the code falls short of the claim). A line without quotes is to be cut at its runs of
  blanks and tabs. The white-space branch increments \<open>zArg\<close> at every blank or tab for as
  long as the last argument is \<open>-z\<close>, not only from 0 to 1 as its comment says (the defect
  of C5): two blanks after \<open>-z\<close>, or a second \<open>-z\<close>, take the counter to 2 without any
  quoted argument, and the rest of the line becomes one argument, blanks included.
\<close>

theorem no_quotes_split_fails:
  "zArg (scanCommandLine ''-z  a b'') = 2 \<and>
   parseCommandLine (Some ''-z  a b'') [] = [''-z'', ''a b''] \<and>
   split_ws ''-z  a b'' = [''-z'', ''a'', ''b''] \<and>
   parseCommandLine (Some ''-z -z a b'') [] = [''-z'', ''-z'', ''a b''] \<and>
   split_ws ''-z -z a b'' = [''-z'', ''-z'', ''a'', ''b'']"
  by (simp add: parseCommandLine_def scanCommandLine_def lstrlen_def cstr_def scanChar_def
      scanLoop.simps NUL_def dquote_def tab_def blank_def isWhite_def)


subsection \<open>The rest of the line after \<open>-z\<close> and a quoted argument\<close>








subsection \<open>Empty arguments\<close>

lemma settled_feed: "wf_tok a \<Longrightarrow> set (settled a) \<subseteq> set (settled (feed a c))"
  by (auto simp: settled_def wf_tok_def feed_def grow_def butlast_append dest: in_set_butlastD)

lemma settled_run: "wf_tok a \<Longrightarrow> set (settled a) \<subseteq> set (settled (foldl feed a xs))"
proof (induction xs arbitrary: a)
  case Nil
  then show ?case by simp
next
  case (Cons x xs)
  show ?case
    using settled_feed[OF Cons.prems, of x] Cons.IH[OF wf_feed[OF Cons.prems], of x] by auto
qed

lemma settled_toks: "set (settled a) \<subseteq> set (toks a)"
  by (auto simp: settled_def dest: in_set_butlastD)

lemma isInList_found:
  assumes "token2Find \<in> set params"
  shows "fst (isInList token2Find params True)"
proof -
  obtain pre post where "params = pre @ token2Find # post" "token2Find \<notin> set pre"
    using split_list_first[OF assms] by blast
  then show ?thesis by (simp add: isInList_hit)
qed

text \<open>
  C10, as stated, fails: two adjacent quotes outside a string after \<open>=\<close> do not always
  give an empty argument. When the first of them closes a quoted file name and the second
  opens the next one, no argument is empty.
\<close>

theorem empty_argument_counterexample:
  \<open>parseCommandLine (Some ''"a""b"'') [] = [''a'', ''b'']\<close>
  by (simp add: parseCommandLine_def scanCommandLine_def lstrlen_def cstr_def scanChar_def
      scanLoop.simps NUL_def dquote_def tab_def blank_def)

text \<open>
  C10, amended. When the scan of \<open>pre\<close> ends outside both kinds of quotes and not
  stopped, \<open>pre\<close> does not end in \<open>=\<close>, and two quotes follow, then the first quote opens
  a quoted file name, the second closes it at once, and the arguments contain the empty
  string, whatever comes after; \<open>isInList\<close> finds it like any other token.
\<close>

theorem empty_argument:
  assumes nul: "NUL \<notin> set (pre @ rest)"
    and pre: "\<not> isBetweenFileNameQuotes (scanCommandLine pre)"
      "\<not> isStringInArg (scanCommandLine pre)"
      "\<not> shouldBeTerminated (scanCommandLine pre)"
      "pre = [] \<or> last pre \<noteq> CHR ''=''"
  shows "[] \<in> set (parseCommandLine (Some (pre @ [dquote, dquote] @ rest)) paramVector) \<and>
         fst (isInList [] (parseCommandLine (Some (pre @ [dquote, dquote] @ rest)) paramVector) True)"
proof -
  let ?raw = "pre @ [dquote, dquote] @ rest"
  define a0 where "a0 = foldl feed tokenizer0 pre"
  have npre: "NUL \<notin> set pre" using nul by simp
  have nraw: "NUL \<notin> set ?raw" using nul special_chars by auto
  have ag: "agrees (scanCommandLine pre) a0"
    using scanCommandLine_refines[OF npre] by (simp add: a0_def)
  have s0: "\<not> btw a0" "\<not> sia a0" "\<not> fin a0" using ag pre by (simp_all add: agrees_def)
  have p0: "\<not> peq a0" using peq_run[of pre] s0(3) pre(4) by (auto simp: a0_def)
  define a2 where "a2 = feed (feed a0 dquote) dquote"
  have a2: "toks a2 = toks a0 @ [[]]" "\<not> opn a2"
    unfolding a2_def using s0 p0 by (simp_all add: feed_def)
  have wf2: "wf_tok a2"
    unfolding a2_def a0_def by (intro wf_feed wf_run wf_tokenizer0)
  have "[] \<in> set (settled a2)" using a2 by (simp add: settled_def)
  then have "[] \<in> set (toks (foldl feed a2 rest))"
    using settled_run[OF wf2, of rest] settled_toks by blast
  moreover have "foldl feed tokenizer0 ?raw = foldl feed a2 rest"
    by (simp add: a0_def a2_def)
  ultimately have "[] \<in> set (parseCommandLine (Some ?raw) paramVector)"
    using parseCommandLine_tokens[OF nraw] by simp
  then show ?thesis using isInList_found by simp
qed

theorem empty_argument_witness:
  \<open>[] \<in> set (parseCommandLine (Some ''a "" b'') []) \<and>
   fst (isInList [] (parseCommandLine (Some ''a "" b'') []) True) \<and>
   [] \<in> set (parseCommandLine (Some ''""'') [])\<close>
proof -
  have "[] \<in> set (parseCommandLine (Some (''a '' @ [dquote, dquote] @ '' b'')) []) \<and>
     fst (isInList [] (parseCommandLine (Some (''a '' @ [dquote, dquote] @ '' b'')) []) True)"
    by (rule empty_argument)
      (simp_all add: scanCommandLine_def lstrlen_def cstr_def scanChar_def
        scanLoop.simps NUL_def dquote_def tab_def blank_def)
  moreover have "[] \<in> set (parseCommandLine (Some ([] @ [dquote, dquote] @ [])) []) \<and>
     fst (isInList [] (parseCommandLine (Some ([] @ [dquote, dquote] @ [])) []) True)"
    by (rule empty_argument)
      (simp_all add: scanCommandLine_def lstrlen_def scanLoop.simps NUL_def)
  ultimately show ?thesis by (simp add: dquote_def)
qed

subsection \<open>The counter \<open>zArg\<close>\<close>

text \<open>
  C5 (the code falls short of the claim). The white-space branch increments \<open>zArg\<close> at
  every blank or tab outside quotes for as long as the last argument is \<open>-z\<close>, not only
  from 0 to 1. With three blanks after \<open>-z\<close> the counter is 3 at the next argument, the
  test \<open>zArg == 2\<close> never holds again, and the rest of the line is cut at its blanks.
\<close>

theorem zArg_overshoots:
  \<open>zArg (scanCommandLine ''-z   "n" a b'') = 3 \<and>
   \<not> shouldBeTerminated (scanCommandLine ''-z   "n" a b'') \<and>
   parseCommandLine (Some ''-z   "n" a b'') [] = [''-z'', ''n'', ''a'', ''b'']\<close>
  by (simp add: parseCommandLine_def scanCommandLine_def lstrlen_def cstr_def scanChar_def
      scanLoop.simps NUL_def dquote_def tab_def blank_def)

end
